theory Spec2Isabelle
  imports Main "HOL-Library.Word" "HOL-Library.Multiset" "HOL-Library.List_Lexorder"
begin

unbundle bit_operations_syntax

section \<open>Wide strings\<close>

text \<open>
  \<^verbatim>\<open>wargh.h\<close> works on \<^verbatim>\<open>std::wstring\<close>: a sequence of \<^verbatim>\<open>wchar_t\<close> code units.
  A code unit is modelled by its numeric value; the parser never does arithmetic on one,
  it only compares them. \<open>L\<close> plays the role of a wide literal \<^verbatim>\<open>L"..."\<close>.
  Comparison of two wide strings (\<^verbatim>\<open>std::less<std::wstring>\<close>, the order of the
  containers) is the lexicographic order on the code units, which is the order of
  \<open>HOL-Library.List_Lexorder\<close>.
\<close>

type_synonym wchar_t = nat
type_synonym wstring = "wchar_t list"

definition L :: "string \<Rightarrow> wstring" where
  "L s = map of_char s"

definition wc :: "char \<Rightarrow> wchar_t" where
  "wc c = of_char c"

text \<open>\<^verbatim>\<open>std::wstring::npos\<close> is \<open>None\<close>.\<close>

fun find :: "wstring \<Rightarrow> wchar_t \<Rightarrow> nat option" where
  "find [] c = None"
| "find (x # xs) c = (if x = c then Some 0 else map_option Suc (find xs c))"

fun find_first_not_of :: "wstring \<Rightarrow> wchar_t \<Rightarrow> nat option" where
  "find_first_not_of [] c = None"
| "find_first_not_of (x # xs) c =
     (if x \<noteq> c then Some 0 else map_option Suc (find_first_not_of xs c))"

text \<open>\<^verbatim>\<open>s.substr(pos)\<close> and \<^verbatim>\<open>s.substr(pos, n)\<close>, used only with \<open>pos \<le> length s\<close>.\<close>

definition substr :: "wstring \<Rightarrow> nat \<Rightarrow> wstring" where
  "substr s pos = drop pos s"

definition substr2 :: "wstring \<Rightarrow> nat \<Rightarrow> nat \<Rightarrow> wstring" where
  "substr2 s pos n = take n (drop pos s)"

section \<open>Stream extraction of a double\<close>

text \<open>
  \<^verbatim>\<open>is_number\<close> constructs a \<^verbatim>\<open>std::wistringstream\<close> on the token, runs
  \<^verbatim>\<open>istr >> number\<close> for a \<^verbatim>\<open>double\<close> and reports whether the stream is still good.
  The extraction is the C++ standard library's \<^verbatim>\<open>num_get<wchar_t>::get\<close> in the classic
  locale; \<open>istream_extract_double\<close> models it, returning whether the stream ends without
  \<^verbatim>\<open>failbit\<close>:
  \<^item> leading white space is skipped (\<^verbatim>\<open>skipws\<close> is set on a fresh stream);
  \<^item> the longest field of the form sign, digits, one decimal point, digits, and
    (only after a mantissa digit) an exponent letter with its sign and digits is
    accumulated; reading stops at the first character that does not continue the field,
    and whatever follows stays unread in the stream;
  \<^item> the accumulated field is converted as \<^verbatim>\<open>strtod\<close> would: the conversion fails
    when the field has no mantissa digit or has an exponent letter without an exponent
    digit, and it fails when the value rounds to infinity in IEEE binary64
    (magnitude at least \<open>2^1024 - 2^970\<close>).
  Nothing checks that the whole token was read.
\<close>

definition iswspace :: "wchar_t \<Rightarrow> bool" where
  "iswspace c = (c = wc CHR '' '' \<or> (9 \<le> c \<and> c \<le> 13))"

definition iswdigit :: "wchar_t \<Rightarrow> bool" where
  "iswdigit c = (wc CHR ''0'' \<le> c \<and> c \<le> wc CHR ''9'')"

definition digits_val :: "wstring \<Rightarrow> nat" where
  "digits_val ds = foldl (\<lambda>a d. 10 * a + (d - wc CHR ''0'')) 0 ds"

definition is_sign :: "wchar_t \<Rightarrow> bool" where
  "is_sign c = (c = wc CHR ''+'' \<or> c = wc CHR ''-'')"

definition skip_sign :: "wstring \<Rightarrow> wstring" where
  "skip_sign s = (case s of [] \<Rightarrow> [] | c # r \<Rightarrow> if is_sign c then r else s)"

text \<open>The magnitude \<open>m * 10^k\<close> is too large for a finite double.\<close>

definition double_overflow :: "nat \<Rightarrow> int \<Rightarrow> bool" where
  "double_overflow m k =
     (if 0 \<le> k then 2 ^ 1024 - 2 ^ 970 \<le> m * 10 ^ nat k
      else (2 ^ 1024 - 2 ^ 970) * 10 ^ nat (- k) \<le> m)"

definition istream_extract_double :: "wstring \<Rightarrow> bool" where
  "istream_extract_double s =
     (let s1 = skip_sign (dropWhile iswspace s);
          ip = takeWhile iswdigit s1;
          s2 = dropWhile iswdigit s1;
          has_point = (s2 \<noteq> [] \<and> hd s2 = wc CHR ''.'');
          fp = (if has_point then takeWhile iswdigit (tl s2) else []);
          s3 = (if has_point then dropWhile iswdigit (tl s2) else s2);
          has_exp = (s3 \<noteq> [] \<and> (hd s3 = wc CHR ''e'' \<or> hd s3 = wc CHR ''E''));
          s4 = tl s3;
          exp_neg = (s4 \<noteq> [] \<and> hd s4 = wc CHR ''-'');
          ed = takeWhile iswdigit (skip_sign s4)
      in if ip = [] \<and> fp = [] then False
         else if has_exp then
           ed \<noteq> [] \<and>
           \<not> double_overflow (digits_val (ip @ fp))
               ((if exp_neg then - int (digits_val ed) else int (digits_val ed))
                 - int (length fp))
         else \<not> double_overflow (digits_val (ip @ fp)) (- int (length fp)))"

section \<open>The parser object\<close>

text \<open>
  \<^verbatim>\<open>assert\<close> aborts the program; the model returns the assertion that failed.
  The two assertions of the file are the one of \<^verbatim>\<open>is_option\<close>
  (\<^verbatim>\<open>0 != arg.size()\<close>) and the one of \<^verbatim>\<open>parse\<close> (the two preferences for
  unregistered options are not both set).
\<close>

datatype error = Assert_arg_size | Assert_mode_exclusive

text \<open>The mode is an \<^verbatim>\<open>int\<close> bit mask; \<^verbatim>\<open>enum Mode\<close> names its bits.\<close>

type_synonym cint = "32 word"

definition PREFER_FLAG_FOR_UNREG_OPTION :: cint where
  "PREFER_FLAG_FOR_UNREG_OPTION = push_bit 0 1"

definition PREFER_PARAM_FOR_UNREG_OPTION :: cint where
  "PREFER_PARAM_FOR_UNREG_OPTION = push_bit 1 1"

definition NO_SPLIT_ON_EQUALSIGN :: cint where
  "NO_SPLIT_ON_EQUALSIGN = push_bit 2 1"

definition SINGLE_DASH_IS_MULTIFLAG :: cint where
  "SINGLE_DASH_IS_MULTIFLAG = push_bit 3 1"

text \<open>
  \<^verbatim>\<open>std::multimap<std::wstring, std::wstring>\<close>: the entries sorted by key, entries of
  one key in the order of their insertion (an insertion goes to the upper bound of its
  key). \<^verbatim>\<open>find\<close> gives the first entry of a key.
\<close>

type_synonym multimap = "(wstring \<times> wstring) list"

definition mm_insert :: "wstring \<times> wstring \<Rightarrow> multimap \<Rightarrow> multimap" where
  "mm_insert kv m =
     takeWhile (\<lambda>e. fst e \<le> fst kv) m @ kv # dropWhile (\<lambda>e. fst e \<le> fst kv) m"

fun mm_find :: "multimap \<Rightarrow> wstring \<Rightarrow> wstring option" where
  "mm_find [] k = None"
| "mm_find (e # m) k = (if fst e = k then Some (snd e) else mm_find m k)"

text \<open>
  The members of \<^verbatim>\<open>class wparser\<close>. The member \<^verbatim>\<open>empty_\<close> is default-constructed and
  never assigned, so it is the constant empty string \<open>empty_member\<close>. Isabelle
  does not take a name that ends with an underscore: the members \<^verbatim>\<open>args_\<close>,
  \<^verbatim>\<open>params_\<close>, \<^verbatim>\<open>pos_args_\<close>, \<^verbatim>\<open>flags_\<close> and \<^verbatim>\<open>registeredParams_\<close> lose theirs.
\<close>

record wparser =
  args :: "wstring list"
  params :: multimap
  pos_args :: "wstring list"
  flags :: "wstring multiset"
  registeredParams :: "wstring set"

definition empty_member :: wstring where
  "empty_member = []"

text \<open>\<^verbatim>\<open>wparser() = default\<close>\<close>

definition wparser_default :: wparser where
  "wparser_default =
     \<lparr>args = [], params = [], pos_args = [], flags = {#}, registeredParams = {}\<rparr>"

definition is_number :: "wstring \<Rightarrow> bool" where
  "is_number arg = istream_extract_double arg"

definition is_option :: "wstring \<Rightarrow> error + bool" where
  "is_option arg =
     (if 0 = length arg then Inl Assert_arg_size
      else if is_number arg then Inr False
      else Inr (wc CHR ''-'' = arg ! 0))"

definition trim_leading_dashes :: "wstring \<Rightarrow> wstring" where
  "trim_leading_dashes name =
     (case find_first_not_of name (wc CHR ''-'') of
        Some pos \<Rightarrow> substr name pos
      | None \<Rightarrow> name)"

definition is_param :: "wparser \<Rightarrow> wstring \<Rightarrow> bool" where
  "is_param p name = (name \<in> registeredParams p)"

definition add_param :: "wstring \<Rightarrow> wparser \<Rightarrow> wparser" where
  "add_param name p =
     p\<lparr>registeredParams := insert (trim_leading_dashes name) (registeredParams p)\<rparr>"

definition add_params :: "wstring list \<Rightarrow> wparser \<Rightarrow> wparser" where
  "add_params init_list p = fold add_param init_list p"

section \<open>Parsing\<close>

text \<open>
  Lines 258 to 288 of \<^verbatim>\<open>parse\<close>: the option \<open>name\<close> found at index \<open>i\<close> becomes a flag
  or takes the next argument as its value. The result is the index \<open>i\<close> as the loop
  body leaves it (before the \<^verbatim>\<open>++i\<close> of the loop header) and the updated parser.
\<close>

definition option_or_flag :: "cint \<Rightarrow> nat \<Rightarrow> wstring \<Rightarrow> wparser \<Rightarrow> error + nat \<times> wparser" where
  "option_or_flag mode i name p =
     (if i = length (args p) - 1
      then Inr (i, p\<lparr>flags := add_mset name (flags p)\<rparr>)
      else case is_option (args p ! (i + 1)) of
          Inl e \<Rightarrow> Inl e
        | Inr True \<Rightarrow> Inr (i, p\<lparr>flags := add_mset name (flags p)\<rparr>)
        | Inr False \<Rightarrow>
            if \<not> (\<not> (mode AND PREFER_FLAG_FOR_UNREG_OPTION \<noteq> 0)
                    \<or> \<not> (mode AND PREFER_PARAM_FOR_UNREG_OPTION \<noteq> 0))
            then Inl Assert_mode_exclusive
            else
              let preferParam = (mode AND PREFER_PARAM_FOR_UNREG_OPTION \<noteq> 0)
              in if is_param p name \<or> preferParam
                 then Inr (i + 1, p\<lparr>params := mm_insert (name, args p ! (i + 1)) (params p)\<rparr>)
                 else Inr (i, p\<lparr>flags := add_mset name (flags p)\<rparr>))"

text \<open>
  Lines 235 to 255: the body of the multi-flag branch. A last character that is a
  registered parameter is kept back as the option name, every other character becomes a
  flag of its own, and without a kept parameter the argument is done (\<^verbatim>\<open>continue\<close>).
\<close>

definition multiflag :: "cint \<Rightarrow> nat \<Rightarrow> wstring \<Rightarrow> wparser \<Rightarrow> error + nat \<times> wparser" where
  "multiflag mode i name p =
     (let keep = (name \<noteq> [] \<and> is_param p [last name]);
          keep_param = (if keep then [last name] else []);
          name1 = (if keep then butlast name else name);
          p1 = p\<lparr>flags := fold (\<lambda>c fs. add_mset [c] fs) name1 (flags p)\<rparr>
      in if keep_param \<noteq> [] then option_or_flag mode i keep_param p1
         else Inr (i, p1))"

text \<open>Lines 218 to 288: the argument at index \<open>i\<close> is an option.\<close>

definition parse_option :: "cint \<Rightarrow> nat \<Rightarrow> wparser \<Rightarrow> error + nat \<times> wparser" where
  "parse_option mode i p =
     (let name = trim_leading_dashes (args p ! i);
          equalPos = (if \<not> (mode AND NO_SPLIT_ON_EQUALSIGN \<noteq> 0)
                      then find name (wc CHR ''='') else None)
      in case equalPos of
           Some pos \<Rightarrow>
             Inr (i, p\<lparr>params :=
                         mm_insert (substr2 name 0 pos, substr name (pos + 1)) (params p)\<rparr>)
         | None \<Rightarrow>
             if 1 = length (args p ! i) - length name
                \<and> SINGLE_DASH_IS_MULTIFLAG AND mode \<noteq> 0
                \<and> \<not> is_param p name
             then multiflag mode i name p
             else option_or_flag mode i name p)"

text \<open>The body of the loop of \<^verbatim>\<open>parse\<close> (lines 212 to 288) at index \<open>i\<close>.\<close>

definition parse_step :: "cint \<Rightarrow> nat \<Rightarrow> wparser \<Rightarrow> error + nat \<times> wparser" where
  "parse_step mode i p =
     (case is_option (args p ! i) of
        Inl e \<Rightarrow> Inl e
      | Inr False \<Rightarrow> Inr (i, p\<lparr>pos_args := pos_args p @ [args p ! i]\<rparr>)
      | Inr True \<Rightarrow> parse_option mode i p)"

section \<open>Mode predicates\<close>

text \<open>Names for the tests that \<^verbatim>\<open>parse\<close> makes on the bits of \<open>mode\<close>.\<close>

definition both_preferences :: "cint \<Rightarrow> bool" where
  "both_preferences mode =
     (mode AND PREFER_FLAG_FOR_UNREG_OPTION \<noteq> 0 \<and> mode AND PREFER_PARAM_FOR_UNREG_OPTION \<noteq> 0)"

definition prefer_param :: "cint \<Rightarrow> bool" where
  "prefer_param mode = (mode AND PREFER_PARAM_FOR_UNREG_OPTION \<noteq> 0)"

definition split_enabled :: "cint \<Rightarrow> bool" where
  "split_enabled mode = (\<not> (mode AND NO_SPLIT_ON_EQUALSIGN \<noteq> 0))"

definition multiflag_enabled :: "cint \<Rightarrow> bool" where
  "multiflag_enabled mode = (SINGLE_DASH_IS_MULTIFLAG AND mode \<noteq> 0)"

section \<open>The branches of the loop body\<close>

lemma option_or_flag_last:
  "i = length (args p) - 1 \<Longrightarrow>
     option_or_flag mode i name p = Inr (i, p\<lparr>flags := add_mset name (flags p)\<rparr>)"
  by (simp add: option_or_flag_def)

lemma option_or_flag_abort:
  "i \<noteq> length (args p) - 1 \<Longrightarrow> is_option (args p ! (i + 1)) = Inl e \<Longrightarrow>
     option_or_flag mode i name p = Inl e"
  by (simp add: option_or_flag_def)

lemma option_or_flag_next_option:
  "i \<noteq> length (args p) - 1 \<Longrightarrow> is_option (args p ! (i + 1)) = Inr True \<Longrightarrow>
     option_or_flag mode i name p = Inr (i, p\<lparr>flags := add_mset name (flags p)\<rparr>)"
  by (simp add: option_or_flag_def)

lemma option_or_flag_assert:
  "i \<noteq> length (args p) - 1 \<Longrightarrow> is_option (args p ! (i + 1)) = Inr False \<Longrightarrow>
   both_preferences mode \<Longrightarrow>
     option_or_flag mode i name p = Inl Assert_mode_exclusive"
  by (simp add: option_or_flag_def both_preferences_def)

lemma option_or_flag_param:
  "i \<noteq> length (args p) - 1 \<Longrightarrow> is_option (args p ! (i + 1)) = Inr False \<Longrightarrow>
   \<not> both_preferences mode \<Longrightarrow>
   is_param p name \<or> mode AND PREFER_PARAM_FOR_UNREG_OPTION \<noteq> 0 \<Longrightarrow>
     option_or_flag mode i name p =
       Inr (i + 1, p\<lparr>params := mm_insert (name, args p ! (i + 1)) (params p)\<rparr>)"
  by (auto simp add: option_or_flag_def both_preferences_def)

lemma option_or_flag_flag:
  "i \<noteq> length (args p) - 1 \<Longrightarrow> is_option (args p ! (i + 1)) = Inr False \<Longrightarrow>
   \<not> is_param p name \<Longrightarrow> mode AND PREFER_PARAM_FOR_UNREG_OPTION = 0 \<Longrightarrow>
     option_or_flag mode i name p = Inr (i, p\<lparr>flags := add_mset name (flags p)\<rparr>)"
  by (simp add: option_or_flag_def)

lemma option_or_flag_cases:
  assumes "option_or_flag mode i name p = Inr (j, q)"
  shows "(j = i \<and> q = p\<lparr>flags := add_mset name (flags p)\<rparr>) \<or>
         (j = i + 1 \<and> q = p\<lparr>params := mm_insert (name, args p ! (i + 1)) (params p)\<rparr>)"
proof (cases "i = length (args p) - 1")
  case True
  with assms show ?thesis by (simp add: option_or_flag_last)
next
  case nl: False
  show ?thesis
  proof (cases "is_option (args p ! (i + 1))")
    case (Inl e)
    with nl assms show ?thesis by (simp add: option_or_flag_abort)
  next
    case (Inr b)
    show ?thesis
    proof (cases b)
      case True
      with nl Inr assms show ?thesis by (simp add: option_or_flag_next_option)
    next
      case False
      show ?thesis
      proof (cases "both_preferences mode")
        case True
        with nl Inr False assms show ?thesis by (simp add: option_or_flag_assert)
      next
        case nb: False
        show ?thesis
        proof (cases "is_param p name \<or> mode AND PREFER_PARAM_FOR_UNREG_OPTION \<noteq> 0")
          case True
          with nl nb Inr False assms show ?thesis by (auto simp add: option_or_flag_param)
        next
          case nn: False
          then have "\<not> is_param p name" "mode AND PREFER_PARAM_FOR_UNREG_OPTION = 0"
            by auto
          with nl Inr False assms show ?thesis by (auto simp add: option_or_flag_flag)
        qed
      qed
    qed
  qed
qed

lemma option_or_flag_frame:
  "option_or_flag mode i name p = Inr (j, q) \<Longrightarrow>
     i \<le> j \<and> args q = args p \<and> registeredParams q = registeredParams p"
  by (drule option_or_flag_cases) auto

lemma multiflag_keep:
  "name \<noteq> [] \<Longrightarrow> is_param p [last name] \<Longrightarrow>
     multiflag mode i name p =
       option_or_flag mode i [last name]
         (p\<lparr>flags := fold (\<lambda>c fs. add_mset [c] fs) (butlast name) (flags p)\<rparr>)"
  by (simp add: multiflag_def)

lemma multiflag_all_flags:
  "name = [] \<or> \<not> is_param p [last name] \<Longrightarrow>
     multiflag mode i name p =
       Inr (i, p\<lparr>flags := fold (\<lambda>c fs. add_mset [c] fs) name (flags p)\<rparr>)"
  by (auto simp add: multiflag_def)

lemma multiflag_frame:
  assumes "multiflag mode i name p = Inr (j, q)"
  shows "i \<le> j \<and> args q = args p \<and> registeredParams q = registeredParams p"
proof (cases "name \<noteq> [] \<and> is_param p [last name]")
  case True
  with assms option_or_flag_frame [of mode i "[last name]" _ j q]
  show ?thesis by (simp add: multiflag_keep)
next
  case False
  with assms show ?thesis by (auto simp add: multiflag_all_flags)
qed



lemma parse_option_split:
  "split_enabled mode \<Longrightarrow> find (trim_leading_dashes (args p ! i)) (wc CHR ''='') = Some pos \<Longrightarrow>
     parse_option mode i p =
       Inr (i, p\<lparr>params :=
                   mm_insert (substr2 (trim_leading_dashes (args p ! i)) 0 pos,
                              substr (trim_leading_dashes (args p ! i)) (pos + 1)) (params p)\<rparr>)"
  by (simp add: parse_option_def split_enabled_def Let_def)

lemma parse_option_nosplit:
  "\<not> split_enabled mode \<or> find (trim_leading_dashes (args p ! i)) (wc CHR ''='') = None \<Longrightarrow>
     parse_option mode i p =
       (if 1 = length (args p ! i) - length (trim_leading_dashes (args p ! i))
           \<and> multiflag_enabled mode
           \<and> \<not> is_param p (trim_leading_dashes (args p ! i))
        then multiflag mode i (trim_leading_dashes (args p ! i)) p
        else option_or_flag mode i (trim_leading_dashes (args p ! i)) p)"
  by (auto simp add: parse_option_def split_enabled_def multiflag_enabled_def Let_def)

lemma parse_option_frame:
  assumes "parse_option mode i p = Inr (j, q)"
  shows "i \<le> j \<and> args q = args p \<and> registeredParams q = registeredParams p"
proof (cases "split_enabled mode \<and> find (trim_leading_dashes (args p ! i)) (wc CHR ''='') \<noteq> None")
  case True
  then obtain pos where "find (trim_leading_dashes (args p ! i)) (wc CHR ''='') = Some pos"
    by auto
  with True assms show ?thesis by (auto simp add: parse_option_split)
next
  case False
  then have "\<not> split_enabled mode \<or> find (trim_leading_dashes (args p ! i)) (wc CHR ''='') = None"
    by simp
  from parse_option_nosplit [OF this] assms
  have "multiflag mode i (trim_leading_dashes (args p ! i)) p = Inr (j, q)
      \<or> option_or_flag mode i (trim_leading_dashes (args p ! i)) p = Inr (j, q)"
    by (simp split: if_splits)
  then show ?thesis
    using multiflag_frame option_or_flag_frame by blast
qed

lemma parse_step_abort:
  "is_option (args p ! i) = Inl e \<Longrightarrow> parse_step mode i p = Inl e"
  by (simp add: parse_step_def)

lemma parse_step_positional:
  "is_option (args p ! i) = Inr False \<Longrightarrow>
     parse_step mode i p = Inr (i, p\<lparr>pos_args := pos_args p @ [args p ! i]\<rparr>)"
  by (simp add: parse_step_def)

lemma parse_step_option:
  "is_option (args p ! i) = Inr True \<Longrightarrow> parse_step mode i p = parse_option mode i p"
  by (simp add: parse_step_def)

lemma parse_step_frame:
  assumes "parse_step mode i p = Inr (j, q)"
  shows "i \<le> j \<and> args q = args p \<and> registeredParams q = registeredParams p"
proof (cases "is_option (args p ! i)")
  case (Inl e)
  with assms show ?thesis by (simp add: parse_step_abort)
next
  case (Inr b)
  show ?thesis
  proof (cases b)
    case True
    with Inr assms parse_option_frame [of mode i p j q] show ?thesis
      by (simp add: parse_step_option)
  next
    case False
    with Inr assms show ?thesis by (auto simp add: parse_step_positional)
  qed
qed

section \<open>The loop\<close>

text \<open>The loop \<^verbatim>\<open>for (auto i = 0u; i < args.size(); ++i)\<close>, entered at index \<open>i\<close>.\<close>

function parse_loop :: "cint \<Rightarrow> nat \<Rightarrow> wparser \<Rightarrow> error + wparser" where
  "parse_loop mode i p =
     (if i < length (args p)
      then case parse_step mode i p of
          Inl e \<Rightarrow> Inl e
        | Inr (j, q) \<Rightarrow> parse_loop mode (j + 1) q
      else Inr p)"
  by pat_completeness auto
termination
proof (relation "measure (\<lambda>(mode, i, p). length (args p) - i)")
  show "wf (measure (\<lambda>(mode, i, p). length (args p) - i))"
    by simp
next
  fix mode :: cint and i :: nat and p :: wparser and x2 :: "nat \<times> wparser" and j q
  assume "i < length (args p)" "parse_step mode i p = Inr x2" "(j, q) = x2"
  then have "i \<le> j \<and> args q = args p"
    using parse_step_frame [of mode i p j q] by simp
  with \<open>i < length (args p)\<close>
  show "((mode, j + 1, q), (mode, i, p)) \<in> measure (\<lambda>(mode, i, p). length (args p) - i)"
    by simp arith
qed

text \<open>
  \<^verbatim>\<open>parse(argc, argv, mode)\<close>: \<open>argv\<close> is the list of the \<open>argc\<close> strings. The overload
  without \<open>argc\<close> counts the strings up to the terminating null pointer and calls this one.
\<close>

definition parse :: "wstring list \<Rightarrow> cint \<Rightarrow> wparser \<Rightarrow> error + wparser" where
  "parse argv mode p =
     parse_loop mode 0 (p\<lparr>flags := {#}, params := [], pos_args := [], args := argv\<rparr>)"

declare parse_loop.simps [simp del]

lemma parse_loop_done:
  "\<not> i < length (args p) \<Longrightarrow> parse_loop mode i p = Inr p"
  by (simp add: parse_loop.simps)

lemma parse_loop_abort:
  "i < length (args p) \<Longrightarrow> parse_step mode i p = Inl e \<Longrightarrow> parse_loop mode i p = Inl e"
  by (simp add: parse_loop.simps)

lemma parse_loop_step:
  "i < length (args p) \<Longrightarrow> parse_step mode i p = Inr (j, q) \<Longrightarrow>
     parse_loop mode i p = parse_loop mode (j + 1) q"
  by (simp add: parse_loop.simps)


section \<open>Evaluation on concrete arguments\<close>

lemma wc_vals:
  "wc CHR '' '' = 32" "wc CHR ''0'' = 48" "wc CHR ''9'' = 57" "wc CHR ''+'' = 43"
  "wc CHR ''-'' = 45" "wc CHR ''.'' = 46" "wc CHR ''e'' = 101" "wc CHR ''E'' = 69"
  "wc CHR ''='' = 61"
  by (simp_all add: wc_def)

lemmas number_eval = is_number_def istream_extract_double_def Let_def wc_vals iswspace_def
  iswdigit_def is_sign_def skip_sign_def digits_val_def double_overflow_def

lemmas mode_eval = PREFER_FLAG_FOR_UNREG_OPTION_def PREFER_PARAM_FOR_UNREG_OPTION_def
  NO_SPLIT_ON_EQUALSIGN_def SINGLE_DASH_IS_MULTIFLAG_def both_preferences_def prefer_param_def
  split_enabled_def multiflag_enabled_def

lemmas parse_eval = parse_def parse_loop.simps parse_step_def parse_option_def multiflag_def
  option_or_flag_def is_param_def add_param_def wparser_default_def mm_insert_def Let_def

lemma L_length: "length (L s) = length s"
  by (simp add: L_def)

lemma L_inj: "(L s = L t) = (s = t)"
  by (simp add: L_def inj_map_eq_map inj_def)

lemma L_Nil: "(L s = []) = (s = [])"
  by (simp add: L_def)

lemma tok_prog: "is_option (L ''prog'') = Inr False"
  by (simp add: is_option_def L_def number_eval)

lemma tok_file_txt: "is_option (L ''file.txt'') = Inr False"
  by (simp add: is_option_def L_def number_eval)

lemma tok_dash_v: "is_option (L ''-v'') = Inr True"
  by (simp add: is_option_def L_def number_eval)

lemma tok_dash_dash_name: "is_option (L ''--name'') = Inr True"
  by (simp add: is_option_def L_def number_eval)

lemma tok_Alice: "is_option (L ''Alice'') = Inr False"
  by (simp add: is_option_def L_def number_eval)

lemma tok_minus_3: "is_option (L ''-3'') = Inr False"
  by (simp add: is_option_def L_def number_eval)

lemma trim_dash_v: "trim_leading_dashes (L ''-v'') = L ''v''"
  by (simp add: trim_leading_dashes_def L_def wc_vals substr_def)

lemma trim_dash_dash_name: "trim_leading_dashes (L ''--name'') = L ''name''"
  by (simp add: trim_leading_dashes_def L_def wc_vals substr_def)

lemma trim_name: "trim_leading_dashes (L ''name'') = L ''name''"
  by (simp add: trim_leading_dashes_def L_def wc_vals substr_def)

lemma find_eq_v: "find (L ''v'') (wc CHR ''='') = None"
  by (simp add: L_def wc_vals)

lemma find_eq_name: "find (L ''name'') (wc CHR ''='') = None"
  by (simp add: L_def wc_vals)

section \<open>The claims\<close>

text \<open>
  C2. Parsing \<^verbatim>\<open>["prog", "file.txt", "-v", "--name", "Alice", "-3"]\<close> in the default mode
  (only \<^verbatim>\<open>PREFER_FLAG_FOR_UNREG_OPTION\<close>) on a parser that has \<^verbatim>\<open>name\<close> registered as a
  parameter returns with the positional arguments \<^verbatim>\<open>["prog", "file.txt", "-3"]\<close> in this
  order, the flags \<^verbatim>\<open>{"v"}\<close> and the one parameter entry \<^verbatim>\<open>("name", "Alice")\<close>.
\<close>

theorem parse_example_default_mode:
  "parse [L ''prog'', L ''file.txt'', L ''-v'', L ''--name'', L ''Alice'', L ''-3'']
     PREFER_FLAG_FOR_UNREG_OPTION (add_param (L ''name'') wparser_default) =
   Inr \<lparr>args = [L ''prog'', L ''file.txt'', L ''-v'', L ''--name'', L ''Alice'', L ''-3''],
        params = [(L ''name'', L ''Alice'')],
        pos_args = [L ''prog'', L ''file.txt'', L ''-3''],
        flags = {# L ''v'' #},
        registeredParams = {L ''name''}\<rparr>"
  by (simp add: parse_eval mode_eval tok_prog tok_file_txt tok_dash_v tok_dash_dash_name
      tok_Alice tok_minus_3 trim_dash_v trim_dash_dash_name trim_name find_eq_v find_eq_name
      L_length L_inj)

lemma parse_loop_registered:
  "parse_loop mode i p = Inr q \<Longrightarrow> registeredParams q = registeredParams p \<and> args q = args p"
proof (induction mode i p rule: parse_loop.induct)
  case (1 mode i p)
  show ?case
  proof (cases "i < length (args p)")
    case False
    with "1.prems" show ?thesis by (simp add: parse_loop_done)
  next
    case True
    show ?thesis
    proof (cases "parse_step mode i p")
      case (Inl e)
      with True "1.prems" show ?thesis by (simp add: parse_loop_abort)
    next
      case (Inr r)
      obtain j p1 where r: "r = (j, p1)" by (cases r)
      with Inr have st: "parse_step mode i p = Inr (j, p1)" by simp
      from parse_loop_step [OF True st] "1.prems"
      have "parse_loop mode (j + 1) p1 = Inr q" by simp
      from "1.IH" [OF True st refl this] parse_step_frame [OF st]
      show ?thesis by simp
    qed
  qed
qed

lemma parse_registered:
  "parse argv mode p = Inr q \<Longrightarrow> registeredParams q = registeredParams p"
  unfolding parse_def by (drule parse_loop_registered) simp

lemma parse_depends_on_registered:
  assumes "registeredParams p = registeredParams p'"
  shows "parse argv mode p = parse argv mode p'"
proof -
  have "p\<lparr>flags := {#}, params := [], pos_args := [], args := argv\<rparr>
      = p'\<lparr>flags := {#}, params := [], pos_args := [], args := argv\<rparr>"
    using assms by (cases p, cases p') simp
  then show ?thesis by (simp add: parse_def)
qed

text \<open>
  C9. A parse call clears the flags, the parameters and the positional arguments before
  it reads its arguments, so after two successive parse calls nothing of the first is
  left: the second call returns what it returns on the parser as it was before the first
  call, and what it returns on a parser that has never parsed and has the same registered
  names (on an empty argument list: empty flags, parameters and positional arguments).
  Parsing leaves the set of registered parameter names as it is.
\<close>

theorem reparse_replaces:
  assumes "parse argv1 mode1 p0 = Inr p1"
  shows "registeredParams p1 = registeredParams p0
       \<and> parse argv2 mode2 p1 = parse argv2 mode2 p0
       \<and> parse argv2 mode2 p1 =
           parse argv2 mode2 (wparser_default\<lparr>registeredParams := registeredParams p0\<rparr>)
       \<and> parse [] mode2 p1 = Inr (p1\<lparr>flags := {#}, params := [], pos_args := [], args := []\<rparr>)
       \<and> (\<forall>p2. parse argv2 mode2 p1 = Inr p2 \<longrightarrow> registeredParams p2 = registeredParams p0)"
proof -
  have d: "parse [] mode2 p1 = Inr (p1\<lparr>flags := {#}, params := [], pos_args := [], args := []\<rparr>)"
    by (simp add: parse_def parse_loop_done)
  have r: "registeredParams p1 = registeredParams p0"
    using assms by (rule parse_registered)
  have a: "parse argv2 mode2 p1 = parse argv2 mode2 p0"
    using r by (rule parse_depends_on_registered)
  have b: "parse argv2 mode2 p1 =
      parse argv2 mode2 (wparser_default\<lparr>registeredParams := registeredParams p0\<rparr>)"
    by (rule parse_depends_on_registered) (simp add: r)
  have c: "\<forall>p2. parse argv2 mode2 p1 = Inr p2 \<longrightarrow> registeredParams p2 = registeredParams p0"
    using r parse_registered [of argv2 mode2 p1] by simp
  from r a b c d show ?thesis by blast
qed


theorem reparse_replaces_witness:
  "parse [L ''-v''] PREFER_FLAG_FOR_UNREG_OPTION (add_param (L ''name'') wparser_default) =
     Inr \<lparr>args = [L ''-v''], params = [], pos_args = [], flags = {# L ''v'' #},
          registeredParams = {L ''name''}\<rparr>
   \<and> parse [L ''prog''] PREFER_FLAG_FOR_UNREG_OPTION
       \<lparr>args = [L ''-v''], params = [], pos_args = [], flags = {# L ''v'' #},
        registeredParams = {L ''name''}\<rparr> =
     Inr \<lparr>args = [L ''prog''], params = [], pos_args = [L ''prog''], flags = {#},
          registeredParams = {L ''name''}\<rparr>"
proof -
  have first: "parse [L ''-v''] PREFER_FLAG_FOR_UNREG_OPTION (add_param (L ''name'') wparser_default) =
     Inr \<lparr>args = [L ''-v''], params = [], pos_args = [], flags = {# L ''v'' #},
          registeredParams = {L ''name''}\<rparr>"
    by (simp add: parse_eval mode_eval tok_dash_v trim_dash_v trim_name find_eq_v)
  have reg: "registeredParams (add_param (L ''name'') wparser_default) = {L ''name''}"
    by (simp add: add_param_def wparser_default_def trim_name)
  have second: "parse [L ''prog''] PREFER_FLAG_FOR_UNREG_OPTION
       (wparser_default\<lparr>registeredParams := {L ''name''}\<rparr>) =
     Inr \<lparr>args = [L ''prog''], params = [], pos_args = [L ''prog''], flags = {#},
          registeredParams = {L ''name''}\<rparr>"
    by (simp add: parse_eval mode_eval tok_prog)
  from reparse_replaces [OF first, of "[L ''prog'']" PREFER_FLAG_FOR_UNREG_OPTION]
  have "parse [L ''prog''] PREFER_FLAG_FOR_UNREG_OPTION
       \<lparr>args = [L ''-v''], params = [], pos_args = [], flags = {# L ''v'' #},
        registeredParams = {L ''name''}\<rparr> =
      parse [L ''prog''] PREFER_FLAG_FOR_UNREG_OPTION
       (wparser_default\<lparr>registeredParams := {L ''name''}\<rparr>)"
    unfolding reg by blast
  with first second show ?thesis by simp
qed

lemma find_Some:
  "find s c = Some pos \<Longrightarrow> pos < length s \<and> s ! pos = c \<and> c \<notin> set (take pos s)"
proof (induction s arbitrary: pos)
  case Nil
  then show ?case by simp
next
  case (Cons x xs)
  show ?case
  proof (cases "x = c")
    case True
    with Cons.prems show ?thesis by simp
  next
    case False
    with Cons.prems obtain k where k: "find xs c = Some k" "pos = Suc k"
      by auto
    from Cons.IH [OF k(1)] k(2) False show ?thesis by auto
  qed
qed

lemma find_None: "find s c = None \<Longrightarrow> c \<notin> set s"
  by (induction s) (auto split: if_splits)

lemma tok_alpha_beta: "is_option (L ''--alpha=beta'') = Inr True"
  by (simp add: is_option_def L_def number_eval)

lemma trim_alpha_beta: "trim_leading_dashes (L ''--alpha=beta'') = L ''alpha=beta''"
  by (simp add: trim_leading_dashes_def L_def wc_vals substr_def)

lemma find_eq_alpha_beta: "find (L ''alpha=beta'') (wc CHR ''='') = Some 5"
  by (simp add: L_def wc_vals)

lemma split_alpha_beta:
  "substr2 (L ''alpha=beta'') 0 5 = L ''alpha''" "substr (L ''alpha=beta'') 6 = L ''beta''"
  "take 5 (L ''alpha=beta'') = L ''alpha''" "drop 6 (L ''alpha=beta'') = L ''beta''"
  by (simp_all add: substr2_def substr_def L_def)

text \<open>
  C5. An option argument whose name (the argument without its leading dashes) contains
  an equals sign, parsed without \<^verbatim>\<open>NO_SPLIT_ON_EQUALSIGN\<close>: the name is cut at its first
  equals sign into a key and a value, the pair is inserted into the parameters, nothing
  else changes, and the loop goes on with the next argument whatever that argument is and
  whatever the other bits of the mode are. Parsing \<^verbatim>\<open>--alpha=beta\<close> alone gives the single
  parameter entry \<^verbatim>\<open>("alpha", "beta")\<close>, no flag and no positional argument.
\<close>

theorem equals_split:
  assumes "is_option (args p ! i) = Inr True"
    and "split_enabled mode"
    and "wc CHR ''='' \<in> set (trim_leading_dashes (args p ! i))"
  shows "(\<exists>key val.
            trim_leading_dashes (args p ! i) = key @ wc CHR ''='' # val
          \<and> wc CHR ''='' \<notin> set key
          \<and> parse_step mode i p = Inr (i, p\<lparr>params := mm_insert (key, val) (params p)\<rparr>))
       \<and> parse [L ''--alpha=beta''] mode p =
           Inr (p\<lparr>flags := {#}, params := [(L ''alpha'', L ''beta'')], pos_args := [],
                  args := [L ''--alpha=beta'']\<rparr>)"
proof -
  let ?name = "trim_leading_dashes (args p ! i)"
  from assms(3) find_None [of ?name "wc CHR ''=''"]
  obtain pos where f: "find ?name (wc CHR ''='') = Some pos"
    by (cases "find ?name (wc CHR ''='')") auto
  have step: "parse_step mode i p =
           Inr (i, p\<lparr>params := mm_insert (take pos ?name, drop (pos + 1) ?name) (params p)\<rparr>)"
    using assms(1,2) f by (simp add: parse_step_option parse_option_split substr_def substr2_def)
  from find_Some [OF f]
  have pos: "pos < length ?name" "?name ! pos = wc CHR ''=''" "wc CHR ''='' \<notin> set (take pos ?name)"
    by simp_all
  have shape: "?name = take pos ?name @ wc CHR ''='' # drop (pos + 1) ?name"
    using id_take_nth_drop [OF pos(1)] pos(2) by simp
  let ?p0 = "p\<lparr>flags := {#}, params := [], pos_args := [], args := [L ''--alpha=beta'']\<rparr>"
  have "parse_step mode 0 ?p0 = Inr (0, ?p0\<lparr>params := [(L ''alpha'', L ''beta'')]\<rparr>)"
    using assms(2)
    by (simp add: parse_step_option parse_option_split tok_alpha_beta trim_alpha_beta
        find_eq_alpha_beta split_alpha_beta mm_insert_def)
  then have "parse_loop mode 0 ?p0 = Inr (?p0\<lparr>params := [(L ''alpha'', L ''beta'')]\<rparr>)"
    by (simp add: parse_loop_step [where j = 0] parse_loop_done)
  then have ex: "parse [L ''--alpha=beta''] mode p =
           Inr (p\<lparr>flags := {#}, params := [(L ''alpha'', L ''beta'')], pos_args := [],
                  args := [L ''--alpha=beta'']\<rparr>)"
    by (simp add: parse_def)
  from step shape pos(3) ex show ?thesis by blast
qed

theorem equals_split_witness:
  "parse [L ''--alpha=beta''] PREFER_FLAG_FOR_UNREG_OPTION
     \<lparr>args = [L ''--alpha=beta'', L ''prog''], params = [], pos_args = [], flags = {#},
      registeredParams = {}\<rparr> =
   Inr \<lparr>args = [L ''--alpha=beta''], params = [(L ''alpha'', L ''beta'')],
        pos_args = [], flags = {#}, registeredParams = {}\<rparr>
   \<and> (\<exists>key val. L ''alpha=beta'' = key @ wc CHR ''='' # val \<and> wc CHR ''='' \<notin> set key
        \<and> parse_step PREFER_FLAG_FOR_UNREG_OPTION 0
             \<lparr>args = [L ''--alpha=beta'', L ''prog''], params = [], pos_args = [], flags = {#},
              registeredParams = {}\<rparr> =
            Inr (0, \<lparr>args = [L ''--alpha=beta'', L ''prog''], params = [(key, val)],
                     pos_args = [], flags = {#}, registeredParams = {}\<rparr>))"
proof -
  let ?p = "\<lparr>args = [L ''--alpha=beta'', L ''prog''], params = [], pos_args = [], flags = {#},
      registeredParams = {}\<rparr>"
  have a: "is_option (args ?p ! 0) = Inr True"
    by (simp add: tok_alpha_beta)
  have b: "split_enabled PREFER_FLAG_FOR_UNREG_OPTION"
    by (simp add: mode_eval)
  have c: "wc CHR ''='' \<in> set (trim_leading_dashes (args ?p ! 0))"
    by (simp add: trim_alpha_beta, simp add: L_def wc_vals)
  from equals_split [OF a b c] show ?thesis
    by (simp add: trim_alpha_beta mm_insert_def)
qed









lemma tok_dash_abc: "is_option (L ''-abc'') = Inr True"
  by (simp add: is_option_def L_def number_eval)

lemma trim_dash_abc: "trim_leading_dashes (L ''-abc'') = L ''abc''"
  by (simp add: trim_leading_dashes_def L_def wc_vals substr_def)

lemma trim_c: "trim_leading_dashes (L ''c'') = L ''c''"
  by (simp add: trim_leading_dashes_def L_def wc_vals substr_def)

lemma find_eq_abc: "find (L ''abc'') (wc CHR ''='') = None"
  by (simp add: L_def wc_vals)

lemma abc_parts:
  "L ''abc'' \<noteq> []" "[last (L ''abc'')] = L ''c''" "butlast (L ''abc'') = L ''ab''"
  "length (L ''-abc'') - length (L ''abc'') = 1"
  by (simp_all add: L_def)

lemma fold_abc:
  "fold (\<lambda>c fs. add_mset [c] fs) (L ''abc'') fs = fs + {# L ''a'', L ''b'', L ''c'' #}"
  "fold (\<lambda>c fs. add_mset [c] fs) (L ''ab'') fs = fs + {# L ''a'', L ''b'' #}"
  by (simp_all add: L_def)

lemma v_parts:
  "[last (L ''v'')] = L ''v''" "butlast (L ''v'') = []"
  "fold (\<lambda>c fs. add_mset [c] fs) (L ''v'') fs = add_mset (L ''v'') fs"
  by (simp_all add: L_def)

lemma parse_step_dash_abc:
  assumes "args p ! i = L ''-abc''" "multiflag_enabled mode" "L ''abc'' \<notin> registeredParams p"
  shows "parse_step mode i p = multiflag mode i (L ''abc'') p"
  using assms
  by (simp add: parse_step_option tok_dash_abc parse_option_nosplit trim_dash_abc find_eq_abc
      abc_parts is_param_def)

text \<open>
  C4, as stated, fails when the token after \<^verbatim>\<open>-abc\<close> is itself an option: with \<^verbatim>\<open>c\<close>
  registered and \<^verbatim>\<open>-v\<close> next, \<^verbatim>\<open>c\<close> becomes a flag like \<^verbatim>\<open>a\<close> and \<^verbatim>\<open>b\<close>, and no parameter
  is recorded.
\<close>

theorem multiflag_abc_next_option:
  "parse [L ''-abc'', L ''-v''] (SINGLE_DASH_IS_MULTIFLAG OR PREFER_FLAG_FOR_UNREG_OPTION)
     (add_param (L ''c'') wparser_default) =
   Inr \<lparr>args = [L ''-abc'', L ''-v''], params = [], pos_args = [],
        flags = {# L ''a'', L ''b'', L ''c'', L ''v'' #}, registeredParams = {L ''c''}\<rparr>"
  by (simp add: parse_eval mode_eval tok_dash_abc tok_dash_v trim_dash_abc trim_dash_v trim_c
      find_eq_abc find_eq_v abc_parts fold_abc v_parts L_length L_inj L_Nil)

text \<open>
  C4, amended. With \<^verbatim>\<open>SINGLE_DASH_IS_MULTIFLAG\<close> set and \<^verbatim>\<open>abc\<close> not registered, the
  argument \<^verbatim>\<open>-abc\<close> at index \<open>i\<close>:
  \<^item> if \<^verbatim>\<open>c\<close> is not registered, adds the flags \<^verbatim>\<open>a\<close>, \<^verbatim>\<open>b\<close>, \<^verbatim>\<open>c\<close> and leaves the index
    where it is, so no following argument is consumed;
  \<^item> if \<^verbatim>\<open>c\<close> is registered and the next argument \<open>X\<close> is not an option
    (\<^verbatim>\<open>is_option(X)\<close> is false) and the mode does not set both preference bits, adds the
    flags \<^verbatim>\<open>a\<close>, \<^verbatim>\<open>b\<close> and the parameter entry \<open>(c, X)\<close>, and skips \<open>X\<close>;
  \<^item> if \<^verbatim>\<open>c\<close> is registered and the next argument is an option, adds the flags
    \<^verbatim>\<open>a\<close>, \<^verbatim>\<open>b\<close>, \<^verbatim>\<open>c\<close> and no parameter.
\<close>

theorem multiflag_abc:
  assumes "i < length (args p)" and "args p ! i = L ''-abc''" and "multiflag_enabled mode"
    and "L ''abc'' \<notin> registeredParams p"
  shows "(L ''c'' \<notin> registeredParams p \<longrightarrow>
            parse_step mode i p = Inr (i, p\<lparr>flags := flags p + {# L ''a'', L ''b'', L ''c'' #}\<rparr>))
       \<and> (L ''c'' \<in> registeredParams p \<and> i + 1 < length (args p)
            \<and> is_option (args p ! (i + 1)) = Inr False \<and> \<not> both_preferences mode \<longrightarrow>
            parse_step mode i p =
              Inr (i + 1, p\<lparr>flags := flags p + {# L ''a'', L ''b'' #},
                             params := mm_insert (L ''c'', args p ! (i + 1)) (params p)\<rparr>))
       \<and> (L ''c'' \<in> registeredParams p \<and> i + 1 < length (args p)
            \<and> is_option (args p ! (i + 1)) = Inr True \<longrightarrow>
            parse_step mode i p = Inr (i, p\<lparr>flags := flags p + {# L ''a'', L ''b'', L ''c'' #}\<rparr>))"
proof -
  note st = parse_step_dash_abc [OF assms(2-4)]
  let ?p1 = "p\<lparr>flags := flags p + {# L ''a'', L ''b'' #}\<rparr>"
  have a: "parse_step mode i p = Inr (i, p\<lparr>flags := flags p + {# L ''a'', L ''b'', L ''c'' #}\<rparr>)"
    if "L ''c'' \<notin> registeredParams p"
    using that by (simp add: st multiflag_all_flags abc_parts is_param_def fold_abc)
  have k: "parse_step mode i p = option_or_flag mode i (L ''c'') ?p1"
    if "L ''c'' \<in> registeredParams p"
    using that by (simp add: st multiflag_keep abc_parts is_param_def fold_abc)
  have b: "parse_step mode i p =
        Inr (i + 1, ?p1\<lparr>params := mm_insert (L ''c'', args p ! (i + 1)) (params p)\<rparr>)"
    if "L ''c'' \<in> registeredParams p" "i + 1 < length (args p)"
       "is_option (args p ! (i + 1)) = Inr False" "\<not> both_preferences mode"
    using that by (simp add: k option_or_flag_param is_param_def)
  have c: "parse_step mode i p = Inr (i, p\<lparr>flags := flags p + {# L ''a'', L ''b'', L ''c'' #}\<rparr>)"
    if "L ''c'' \<in> registeredParams p" "i + 1 < length (args p)"
       "is_option (args p ! (i + 1)) = Inr True"
    using that by (simp add: k option_or_flag_next_option)
  from a b c show ?thesis by blast
qed


theorem multiflag_abc_witness:
  "parse_step (SINGLE_DASH_IS_MULTIFLAG OR PREFER_FLAG_FOR_UNREG_OPTION) 0
     \<lparr>args = [L ''-abc'', L ''file.txt''], params = [], pos_args = [], flags = {#},
      registeredParams = {}\<rparr> =
   Inr (0, \<lparr>args = [L ''-abc'', L ''file.txt''], params = [], pos_args = [],
            flags = {# L ''a'', L ''b'', L ''c'' #}, registeredParams = {}\<rparr>)
   \<and> parse_step (SINGLE_DASH_IS_MULTIFLAG OR PREFER_FLAG_FOR_UNREG_OPTION) 0
     \<lparr>args = [L ''-abc'', L ''file.txt''], params = [], pos_args = [], flags = {#},
      registeredParams = {L ''c''}\<rparr> =
   Inr (1, \<lparr>args = [L ''-abc'', L ''file.txt''], params = [(L ''c'', L ''file.txt'')],
            pos_args = [], flags = {# L ''a'', L ''b'' #}, registeredParams = {L ''c''}\<rparr>)
   \<and> parse_step (SINGLE_DASH_IS_MULTIFLAG OR PREFER_FLAG_FOR_UNREG_OPTION) 0
     \<lparr>args = [L ''-abc'', L ''-v''], params = [], pos_args = [], flags = {#},
      registeredParams = {L ''c''}\<rparr> =
   Inr (0, \<lparr>args = [L ''-abc'', L ''-v''], params = [], pos_args = [],
            flags = {# L ''a'', L ''b'', L ''c'' #}, registeredParams = {L ''c''}\<rparr>)"
proof -
  let ?m = "SINGLE_DASH_IS_MULTIFLAG OR PREFER_FLAG_FOR_UNREG_OPTION"
  let ?p = "\<lparr>args = [L ''-abc'', L ''file.txt''], params = [], pos_args = [], flags = {#},
      registeredParams = {}\<rparr>"
  let ?q = "\<lparr>args = [L ''-abc'', L ''file.txt''], params = [], pos_args = [], flags = {#},
      registeredParams = {L ''c''}\<rparr>"
  let ?r = "\<lparr>args = [L ''-abc'', L ''-v''], params = [], pos_args = [], flags = {#},
      registeredParams = {L ''c''}\<rparr>"
  have m: "multiflag_enabled ?m" "\<not> both_preferences ?m"
    by (simp_all add: mode_eval)
  have p: "0 < length (args ?p)" "args ?p ! 0 = L ''-abc''" "L ''abc'' \<notin> registeredParams ?p"
    "L ''c'' \<notin> registeredParams ?p"
    by simp_all
  have q: "0 < length (args ?q)" "args ?q ! 0 = L ''-abc''" "L ''abc'' \<notin> registeredParams ?q"
    "L ''c'' \<in> registeredParams ?q" "0 + 1 < length (args ?q)"
    "is_option (args ?q ! (0 + 1)) = Inr False"
    by (simp_all add: L_inj tok_file_txt)
  have r: "0 < length (args ?r)" "args ?r ! 0 = L ''-abc''" "L ''abc'' \<notin> registeredParams ?r"
    "L ''c'' \<in> registeredParams ?r" "0 + 1 < length (args ?r)"
    "is_option (args ?r ! (0 + 1)) = Inr True"
    by (simp_all add: L_inj tok_dash_v)
  from multiflag_abc [OF p(1,2) m(1) p(3)] p(4)
  have 1: "parse_step ?m 0 ?p = Inr (0, ?p\<lparr>flags := flags ?p + {# L ''a'', L ''b'', L ''c'' #}\<rparr>)"
    by blast
  from multiflag_abc [OF q(1,2) m(1) q(3)] q(4-6) m(2)
  have 2: "parse_step ?m 0 ?q =
      Inr (0 + 1, ?q\<lparr>flags := flags ?q + {# L ''a'', L ''b'' #},
                     params := mm_insert (L ''c'', args ?q ! (0 + 1)) (params ?q)\<rparr>)"
    by blast
  from multiflag_abc [OF r(1,2) m(1) r(3)] r(4-6)
  have 3: "parse_step ?m 0 ?r = Inr (0, ?r\<lparr>flags := flags ?r + {# L ''a'', L ''b'', L ''c'' #}\<rparr>)"
    by blast
  from 1 2 3 show ?thesis by (simp add: mm_insert_def)
qed

section \<open>Totality and the two assertions\<close>

lemma is_option_empty: "is_option [] = Inl Assert_arg_size"
  by (simp add: is_option_def)

lemma is_option_nonempty: "arg \<noteq> [] \<Longrightarrow> \<exists>b. is_option arg = Inr b"
  by (auto simp add: is_option_def)

lemma find_first_not_of_Some:
  "find_first_not_of s c = Some pos \<Longrightarrow>
     pos < length s \<and> s ! pos \<noteq> c \<and> take pos s = replicate pos c"
proof (induction s arbitrary: pos)
  case Nil
  then show ?case by simp
next
  case (Cons x xs)
  show ?case
  proof (cases "x = c")
    case False
    with Cons.prems show ?thesis by simp
  next
    case True
    with Cons.prems obtain k where k: "find_first_not_of xs c = Some k" "pos = Suc k"
      by auto
    from Cons.IH [OF k(1)] k(2) True show ?thesis by simp
  qed
qed

lemma trim_leading_dashes_nonempty: "arg \<noteq> [] \<Longrightarrow> trim_leading_dashes arg \<noteq> []"
  by (auto simp add: trim_leading_dashes_def substr_def split: option.splits
      dest: find_first_not_of_Some)

lemma is_option_Inr: "is_option arg = Inr b \<Longrightarrow> arg \<noteq> []"
  by (auto simp add: is_option_def)

lemma is_option_Inl: "is_option arg = Inl e \<Longrightarrow> arg = [] \<and> e = Assert_arg_size"
  by (auto simp add: is_option_def split: if_splits)

lemma fold_single_flags:
  "fold (\<lambda>c fs. add_mset [c] fs) name fs = fs + mset (map (\<lambda>c. [c]) name)"
  by (induction name arbitrary: fs) simp_all

lemma flags_update_id: "p\<lparr>flags := flags p + {#}\<rparr> = p"
  by simp

text \<open>What an option argument can do: insert a split pair, add flags only, or reach
  the decision of \<open>option_or_flag\<close> after adding the flags \<open>fs\<close> (none without multi-flag).\<close>

lemma parse_option_cases:
  "(\<exists>key val. parse_option mode i p = Inr (i, p\<lparr>params := mm_insert (key, val) (params p)\<rparr>)
        \<and> split_enabled mode \<and> wc CHR ''='' \<in> set (trim_leading_dashes (args p ! i)))
   \<or> (\<exists>fs. fs \<noteq> {#} \<and> parse_option mode i p = Inr (i, p\<lparr>flags := flags p + fs\<rparr>))
   \<or> (\<exists>name fs. parse_option mode i p = option_or_flag mode i name (p\<lparr>flags := flags p + fs\<rparr>))"
proof (cases "split_enabled mode \<and> find (trim_leading_dashes (args p ! i)) (wc CHR ''='') \<noteq> None")
  case True
  then obtain pos where f: "find (trim_leading_dashes (args p ! i)) (wc CHR ''='') = Some pos"
    by auto
  from find_Some [OF f] have "wc CHR ''='' \<in> set (trim_leading_dashes (args p ! i))"
    by (metis nth_mem)
  with True f show ?thesis
    by (auto simp add: parse_option_split)
next
  case False
  then have ns: "\<not> split_enabled mode \<or> find (trim_leading_dashes (args p ! i)) (wc CHR ''='') = None"
    by simp
  let ?name = "trim_leading_dashes (args p ! i)"
  show ?thesis
  proof (cases "1 = length (args p ! i) - length ?name \<and> multiflag_enabled mode
      \<and> \<not> is_param p ?name")
    case mf: True
    then have po: "parse_option mode i p = multiflag mode i ?name p"
      using parse_option_nosplit [OF ns] by simp
    show ?thesis
    proof (cases "?name \<noteq> [] \<and> is_param p [last ?name]")
      case True
      then have "parse_option mode i p =
          option_or_flag mode i [last ?name]
            (p\<lparr>flags := flags p + mset (map (\<lambda>c. [c]) (butlast ?name))\<rparr>)"
        by (simp add: po multiflag_keep fold_single_flags)
      then show ?thesis by blast
    next
      case False
      from mf have "args p ! i \<noteq> []" by auto
      then have ne: "?name \<noteq> []" by (rule trim_leading_dashes_nonempty)
      from False have "parse_option mode i p =
          Inr (i, p\<lparr>flags := flags p + mset (map (\<lambda>c. [c]) ?name)\<rparr>)"
        by (auto simp add: po multiflag_all_flags fold_single_flags)
      moreover from ne have "mset (map (\<lambda>c. [c]) ?name) \<noteq> {#}" by simp
      ultimately show ?thesis by blast
    qed
  next
    case False
    then have "parse_option mode i p = option_or_flag mode i ?name p"
      using parse_option_nosplit [OF ns] by auto
    then have "parse_option mode i p = option_or_flag mode i ?name (p\<lparr>flags := flags p + {#}\<rparr>)"
      by simp
    then show ?thesis by blast
  qed
qed


lemma option_or_flag_skip:
  "option_or_flag mode i name p = Inr (Suc i, q) \<Longrightarrow>
     i \<noteq> length (args p) - 1 \<and> is_option (args p ! (i + 1)) = Inr False
     \<and> \<not> both_preferences mode \<and> (is_param p name \<or> prefer_param mode)
     \<and> q = p\<lparr>params := mm_insert (name, args p ! (i + 1)) (params p)\<rparr>"
  unfolding option_or_flag_def both_preferences_def prefer_param_def Let_def
  by (auto split: if_splits sum.splits bool.splits)

lemma option_or_flag_error:
  "option_or_flag mode i name p = Inl e \<Longrightarrow>
     i \<noteq> length (args p) - 1 \<and>
     (e = Assert_arg_size \<and> args p ! (i + 1) = []
      \<or> e = Assert_mode_exclusive \<and> both_preferences mode
          \<and> is_option (args p ! (i + 1)) = Inr False)"
  unfolding option_or_flag_def both_preferences_def Let_def
  by (auto split: if_splits sum.splits bool.splits dest: is_option_Inl)

lemma option_or_flag_total:
  assumes "\<not> both_preferences mode" and "i \<noteq> length (args p) - 1 \<longrightarrow> args p ! (i + 1) \<noteq> []"
  shows "\<exists>j q. option_or_flag mode i name p = Inr (j, q)"
proof (cases "option_or_flag mode i name p")
  case (Inl e)
  from option_or_flag_error [OF Inl] assms show ?thesis by auto
next
  case (Inr r)
  then show ?thesis by (cases r) auto
qed

text \<open>A step that returns: the argument at \<open>i\<close> is not empty, and the index moves on only
  over an argument that is not an option.\<close>

lemma parse_step_Inr:
  assumes "parse_step mode i p = Inr (j, q)"
  shows "args p ! i \<noteq> [] \<and>
         (j = i \<or> j = Suc i \<and> i \<noteq> length (args p) - 1
                    \<and> is_option (args p ! (i + 1)) = Inr False)"
proof (cases "is_option (args p ! i)")
  case (Inl e)
  with assms show ?thesis by (simp add: parse_step_abort)
next
  case (Inr b)
  then have ne: "args p ! i \<noteq> []" by (rule is_option_Inr)
  show ?thesis
  proof (cases b)
    case False
    with Inr assms ne show ?thesis by (simp add: parse_step_positional)
  next
    case True
    with Inr assms have po: "parse_option mode i p = Inr (j, q)"
      by (simp add: parse_step_option)
    from parse_option_cases [of mode i p] show ?thesis
    proof (elim disjE exE conjE)
      fix key val
      assume "parse_option mode i p = Inr (i, p\<lparr>params := mm_insert (key, val) (params p)\<rparr>)"
      with po ne show ?thesis by simp
    next
      fix fs
      assume "parse_option mode i p = Inr (i, p\<lparr>flags := flags p + fs\<rparr>)"
      with po ne show ?thesis by simp
    next
      fix name fs
      assume "parse_option mode i p = option_or_flag mode i name (p\<lparr>flags := flags p + fs\<rparr>)"
      with po have oo: "option_or_flag mode i name (p\<lparr>flags := flags p + fs\<rparr>) = Inr (j, q)"
        by simp
      from option_or_flag_cases [OF oo] have "j = i \<or> j = Suc i" by auto
      then show ?thesis
      proof
        assume "j = i"
        with ne show ?thesis by simp
      next
        assume j: "j = Suc i"
        with oo option_or_flag_skip [of mode i name "p\<lparr>flags := flags p + fs\<rparr>" q]
        show ?thesis using ne by simp
      qed
    qed
  qed
qed

lemma parse_step_error:
  assumes "parse_step mode i p = Inl e"
  shows "e = Assert_arg_size \<and> (args p ! i = [] \<or> i \<noteq> length (args p) - 1 \<and> args p ! (i + 1) = [])
       \<or> e = Assert_mode_exclusive \<and> both_preferences mode \<and> i \<noteq> length (args p) - 1
           \<and> is_option (args p ! i) = Inr True \<and> is_option (args p ! (i + 1)) = Inr False"
proof (cases "is_option (args p ! i)")
  case (Inl e')
  with assms have "e = e'" by (simp add: parse_step_abort)
  with is_option_Inl [OF Inl] show ?thesis by simp
next
  case (Inr b)
  show ?thesis
  proof (cases b)
    case False
    with Inr assms show ?thesis by (simp add: parse_step_positional)
  next
    case True
    with Inr assms have po: "parse_option mode i p = Inl e"
      by (simp add: parse_step_option)
    from parse_option_cases [of mode i p] show ?thesis
    proof (elim disjE exE conjE)
      fix key val
      assume "parse_option mode i p = Inr (i, p\<lparr>params := mm_insert (key, val) (params p)\<rparr>)"
      with po show ?thesis by simp
    next
      fix fs
      assume "parse_option mode i p = Inr (i, p\<lparr>flags := flags p + fs\<rparr>)"
      with po show ?thesis by simp
    next
      fix name fs
      assume "parse_option mode i p = option_or_flag mode i name (p\<lparr>flags := flags p + fs\<rparr>)"
      with po have "option_or_flag mode i name (p\<lparr>flags := flags p + fs\<rparr>) = Inl e"
        by simp
      from option_or_flag_error [OF this] Inr True show ?thesis by auto
    qed
  qed
qed

lemma parse_step_total:
  assumes "\<not> both_preferences mode" and "args p ! i \<noteq> []"
    and "i \<noteq> length (args p) - 1 \<longrightarrow> args p ! (i + 1) \<noteq> []"
  shows "\<exists>j q. parse_step mode i p = Inr (j, q)"
proof (cases "parse_step mode i p")
  case (Inl e)
  from parse_step_error [OF Inl] assms show ?thesis by auto
next
  case (Inr r)
  then show ?thesis by (cases r) auto
qed


lemma parse_loop_total:
  "\<not> both_preferences mode \<Longrightarrow>
   (\<forall>k. i \<le> k \<and> k < length (args p) \<longrightarrow> args p ! k \<noteq> []) \<Longrightarrow>
     \<exists>q. parse_loop mode i p = Inr q"
proof (induction mode i p rule: parse_loop.induct)
  case (1 mode i p)
  show ?case
  proof (cases "i < length (args p)")
    case False
    then show ?thesis by (simp add: parse_loop_done)
  next
    case True
    with "1.prems"(2) have "args p ! i \<noteq> []" by simp
    moreover from True "1.prems"(2) have "i \<noteq> length (args p) - 1 \<longrightarrow> args p ! (i + 1) \<noteq> []"
      by (simp add: less_Suc_eq_le Suc_lessI)
    ultimately obtain j q where st: "parse_step mode i p = Inr (j, q)"
      using parse_step_total [OF "1.prems"(1)] by blast
    from parse_step_frame [OF st] have fr: "i \<le> j" "args q = args p" by simp_all
    with "1.prems"(2) have "\<forall>k. j + 1 \<le> k \<and> k < length (args q) \<longrightarrow> args q ! k \<noteq> []"
      by simp
    from "1.IH" [OF True st refl "1.prems"(1) this] parse_loop_step [OF True st]
    show ?thesis by simp
  qed
qed

lemma parse_loop_error:
  "parse_loop mode i p = Inl e \<Longrightarrow>
     e = Assert_arg_size \<and> (\<exists>k. i \<le> k \<and> k < length (args p) \<and> args p ! k = [])
     \<or> e = Assert_mode_exclusive \<and> both_preferences mode"
proof (induction mode i p rule: parse_loop.induct)
  case (1 mode i p)
  show ?case
  proof (cases "i < length (args p)")
    case False
    with "1.prems" show ?thesis by (simp add: parse_loop_done)
  next
    case True
    show ?thesis
    proof (cases "parse_step mode i p")
      case (Inl e')
      with True "1.prems" have e: "e' = e" by (simp add: parse_loop_abort)
      from parse_step_error [OF Inl] e True show ?thesis
        by (elim disjE conjE) (auto simp add: less_Suc_eq_le Suc_lessI intro: exI [of _ i] exI [of _ "Suc i"])
    next
      case (Inr r)
      obtain j q where r: "r = (j, q)" by (cases r)
      with Inr have st: "parse_step mode i p = Inr (j, q)" by simp
      from parse_step_frame [OF st] have fr: "i \<le> j" "args q = args p" by simp_all
      from parse_loop_step [OF True st] "1.prems"
      have "parse_loop mode (j + 1) q = Inl e" by simp
      from "1.IH" [OF True st refl this]
      show ?thesis
      proof (elim disjE conjE exE)
        fix k
        assume "e = Assert_arg_size" "j + 1 \<le> k" "k < length (args q)" "args q ! k = []"
        with fr have "e = Assert_arg_size \<and> i \<le> k \<and> k < length (args p) \<and> args p ! k = []"
          by simp
        then show ?thesis by blast
      next
        assume "e = Assert_mode_exclusive" "both_preferences mode"
        then show ?thesis by simp
      qed
    qed
  qed
qed

lemma parse_loop_empty_token:
  "\<exists>k. i \<le> k \<and> k < length (args p) \<and> args p ! k = [] \<Longrightarrow> \<exists>e. parse_loop mode i p = Inl e"
proof (induction mode i p rule: parse_loop.induct)
  case (1 mode i p)
  from "1.prems" obtain k where k: "i \<le> k" "k < length (args p)" "args p ! k = []"
    by blast
  then have il: "i < length (args p)" by simp
  show ?case
  proof (cases "parse_step mode i p")
    case (Inl e)
    with il show ?thesis by (simp add: parse_loop_abort)
  next
    case (Inr r)
    obtain j q where r: "r = (j, q)" by (cases r)
    with Inr have st: "parse_step mode i p = Inr (j, q)" by simp
    from parse_step_frame [OF st] have fr: "args q = args p" by simp
    from parse_step_Inr [OF st] k(3)
    have "k \<noteq> i" and "j = i \<or> j = Suc i \<and> k \<noteq> Suc i"
      by (auto dest: is_option_Inr)
    with k(1) have "j + 1 \<le> k" by auto
    with k fr have "\<exists>k. j + 1 \<le> k \<and> k < length (args q) \<and> args q ! k = []"
      by auto
    from "1.IH" [OF il st refl this] parse_loop_step [OF il st] show ?thesis
      by simp
  qed
qed

end
